theory Spec2Isabelle
  imports Complex_Main
begin

section \<open>Redshift finder (zfinder.py): a shallow embedding\<close>

text \<open>
  The program computes with NumPy and Python floats. They are modelled as the real numbers:
  the claims verified here are about control flow, indexing and the shape of the data, not
  about rounding. Python exceptions are values of \<open>py_error\<close>.
\<close>

datatype py_error = IndexError | ValueError

subsection \<open>Indexing a Python sequence\<close>

text \<open>
  \<open>data[i]\<close>: a negative index counts from the end, an index outside
  \<open>-len(data) .. len(data) - 1\<close> raises IndexError.
\<close>

definition getitem :: "real list \<Rightarrow> int \<Rightarrow> py_error + real" where
  "getitem data i =
     (if 0 \<le> i \<and> i < int (length data) then Inr (data ! nat i)
      else if - int (length data) \<le> i \<and> i < 0 then Inr (data ! nat (int (length data) + i))
      else Inl IndexError)"

subsection \<open>average_zeroes\<close>

text \<open>
  \<^verbatim>\<open>
  def average_zeroes(data: list):
      for i, val in enumerate(data):
          if val == 0:
              data[i] = (data[i-1] + data[i+1])/2
      return data
  \<close>
  The sequence is updated in place while it is traversed, so the model threads it through
  the loop. An exception leaves the function with the sequence as it stands at that moment;
  the outcome keeps it, since the caller holds the same object.
\<close>

datatype outcome = Returned "real list" | Raised py_error "real list"

fun store_of :: "outcome \<Rightarrow> real list" where
  "store_of (Returned data) = data"
| "store_of (Raised e data) = data"

function average_zeroes_loop :: "real list \<Rightarrow> nat \<Rightarrow> outcome" where
  "average_zeroes_loop data i =
     (if i < length data then
        (if data ! i = 0 then
           (case getitem data (int i - 1) of
              Inl e \<Rightarrow> Raised e data
            | Inr l \<Rightarrow>
                (case getitem data (int i + 1) of
                   Inl e \<Rightarrow> Raised e data
                 | Inr r \<Rightarrow> average_zeroes_loop (data[i := (l + r) / 2]) (Suc i)))
         else average_zeroes_loop data (Suc i))
      else Returned data)"
  by pat_completeness auto
termination
  by (relation "measure (\<lambda>(data, i). length data - i)") auto

definition average_zeroes :: "real list \<Rightarrow> outcome" where
  "average_zeroes data = average_zeroes_loop data 0"

subsection \<open>gaussf\<close>

text \<open>
  \<^verbatim>\<open>
  def gaussf(x, a, s, x0, n):
      y = 0
      for i in range(1,n):
          y += (a * np.exp(-((x-i*x0) / s)**2))
      return y
  \<close>
  \<open>x\<close> is a NumPy array, so every pass of the loop adds an array to \<open>y\<close>. \<open>y\<close> starts as
  the Python number 0 and is still that number when the loop body never runs; a value is
  therefore either a scalar or an array. Adding an array to a scalar adds the scalar to
  every element. Both arrays added in the loop are built from \<open>x\<close> and have its length.
\<close>

datatype ndval = Scalar real | Array "real list"

fun iadd :: "ndval \<Rightarrow> real list \<Rightarrow> ndval" where
  "iadd (Scalar c) t = Array (map (\<lambda>v. c + v) t)"
| "iadd (Array u) t = Array (map2 (+) u t)"

text \<open>The element a value stands for at a position, a scalar being the same everywhere.\<close>

fun nd_at :: "ndval \<Rightarrow> nat \<Rightarrow> real" where
  "nd_at (Scalar c) k = c"
| "nd_at (Array u) k = u ! k"

text \<open>\<open>range(lo, hi)\<close> on Python integers: empty when \<open>hi \<le> lo\<close>.\<close>

definition py_range :: "int \<Rightarrow> int \<Rightarrow> int list" where
  "py_range lo hi = [lo..hi - 1]"

definition lobe :: "real list \<Rightarrow> real \<Rightarrow> real \<Rightarrow> real \<Rightarrow> int \<Rightarrow> real list" where
  "lobe x a s x0 i = map (\<lambda>xv. a * exp (- (((xv - of_int i * x0) / s)\<^sup>2))) x"

definition gaussf :: "real list \<Rightarrow> real \<Rightarrow> real \<Rightarrow> real \<Rightarrow> int \<Rightarrow> ndval" where
  "gaussf x a s x0 n = foldl (\<lambda>y i. iadd y (lobe x a s x0 i)) (Scalar 0) (py_range 1 n)"

subsection \<open>The grid search of zfind, for one sample point\<close>

text \<open>
  What the scan of the redshift grid reads for one point. \<open>curve_fit\<close> (SciPy) and
  \<open>argsort\<close> (NumPy) are library functions and are taken as they come: \<open>curve_fit\<close> is
  given the template centre \<open>loc\<close>, the only thing that changes between candidates, and
  answers with the fitted amplitude and width or with \<open>None\<close> when it raises RuntimeError;
  \<open>argsort\<close> answers with the indices that sort its argument, in an order NumPy does not
  fix among equal elements. Only the RuntimeError of \<open>curve_fit\<close> is modelled, the one
  exception the program handles. The flux, the uncertainty and the frequency axis have
  one entry per channel, and a cube has at least one channel (the constructor reads the
  last one), so \<open>max(y_flux)\<close> in the bounds of the fit does not fail.
\<close>

record env =
  curve_fit :: "real \<Rightarrow> (real \<times> real) option"
  argsort :: "real list \<Rightarrow> nat list"
  x_axis_flux :: "real list"
  y_flux :: "real list"
  uncert :: "real list"
  spec_peaks :: "int list"
  ftransition :: real
  num_gaussians :: int

text \<open>\<open>max(xs)\<close> and \<open>min(xs)\<close>: ValueError on an empty sequence.\<close>

fun py_max :: "real list \<Rightarrow> py_error + real" where
  "py_max [] = Inl ValueError"
| "py_max (x # xs) = Inr (foldl max x xs)"

fun py_min :: "real list \<Rightarrow> py_error + real" where
  "py_min [] = Inl ValueError"
| "py_min (x # xs) = Inr (foldl min x xs)"

text \<open>\<open>y_flux - f_exp\<close>, where \<open>f_exp\<close> is what \<open>gaussf\<close> returned.\<close>

fun residual :: "real list \<Rightarrow> ndval \<Rightarrow> real list" where
  "residual ys (Scalar c) = map (\<lambda>y. y - c) ys"
| "residual ys (Array es) = map2 (-) ys es"

text \<open>\<open>sum(((y_flux - f_exp) / uncert)**2)\<close>\<close>

definition chi_squared :: "real list \<Rightarrow> ndval \<Rightarrow> real list \<Rightarrow> real" where
  "chi_squared ys f_exp us = sum_list (map (\<lambda>v. v\<^sup>2) (map2 (/) (residual ys f_exp) us))"

text \<open>
  \<open>np.sort(np.argsort(f_exp)[-num_spec_peaks:])\<close> when there are peaks, the empty list
  otherwise. \<open>np.argsort\<close> of a scalar sorts the one-element array holding it.
\<close>

fun nd_list :: "ndval \<Rightarrow> real list" where
  "nd_list (Scalar c) = [c]"
| "nd_list (Array es) = es"

definition exp_peak :: "env \<Rightarrow> ndval \<Rightarrow> int list" where
  "exp_peak e f_exp =
     (let num_spec_peaks = length (spec_peaks e)
      in if num_spec_peaks \<noteq> 0
         then (let order = argsort e (nd_list f_exp)
               in sort (map int (drop (length order - num_spec_peaks) order)))
         else [])"

text \<open>The sum of \<open>abs(p1 - p2)\<close> over \<open>zip(spec_peaks, exp_peak)\<close>.\<close>

definition peak_distance :: "env \<Rightarrow> ndval \<Rightarrow> int" where
  "peak_distance e f_exp =
     sum_list (map2 (\<lambda>p1 p2. \<bar>p1 - p2\<bar>) (spec_peaks e) (exp_peak e f_exp))"

text \<open>
  One pass of \<open>for ddz in self.z\<close>, on the two lists the loop appends to. When the fit
  raises RuntimeError the handler appends \<open>max(chi2_array)\<close> and goes on to the next
  candidate (\<open>continue\<close>); \<open>max\<close> of the empty list raises ValueError, which nothing
  catches.
\<close>

type_synonym scan_state = "real list \<times> (real \<times> real) list"

definition zfind_candidate :: "env \<Rightarrow> scan_state \<Rightarrow> real \<Rightarrow> py_error + scan_state" where
  "zfind_candidate e st ddz =
     (let chi2_array = fst st; param_array = snd st;
          loc = ftransition e / (1 + ddz)
      in case curve_fit e loc of
           None \<Rightarrow>
             (case py_max chi2_array of
                Inl err \<Rightarrow> Inl err
              | Inr m \<Rightarrow> Inr (chi2_array @ [m], param_array))
         | Some params \<Rightarrow>
             (let f_exp = gaussf (x_axis_flux e) (fst params) (snd params) loc (num_gaussians e);
                  chi2 = chi_squared (y_flux e) f_exp (uncert e);
                  num_spec_peaks = int (length (spec_peaks e));
                  chi2 = (if peak_distance e f_exp > num_spec_peaks * 3 \<or> num_spec_peaks < 2
                          then chi2 * 1.2 else chi2)
              in Inr (chi2_array @ [chi2], param_array @ [params])))"

fun zfind_scan :: "env \<Rightarrow> real list \<Rightarrow> scan_state \<Rightarrow> py_error + scan_state" where
  "zfind_scan e [] st = Inr st"
| "zfind_scan e (ddz # zs) st =
     (case zfind_candidate e st ddz of
        Inl err \<Rightarrow> Inl err
      | Inr st' \<Rightarrow> zfind_scan e zs st')"

text \<open>
  The colour appended to \<open>plot_colours\<close> for the point at position \<open>index\<close>, whose least
  chi-squared is \<open>min_plot_chi2\<close>. \<open>target_chi2\<close> is assigned at index 0 (the origin) and
  read at every later index, where it holds the least chi-squared of the origin. The
  comments of the source name the colours: red is "lower than original", gold "within 5%
  above the original", green "more than 5% above the original".
\<close>

definition plot_colour :: "nat \<Rightarrow> real \<Rightarrow> real \<Rightarrow> string" where
  "plot_colour index target_chi2 min_plot_chi2 =
     (if index = 0 then ''black''
      else if min_plot_chi2 \<le> target_chi2 then ''red''
      else if min_plot_chi2 > target_chi2 \<and> min_plot_chi2 \<le> 1.05 * target_chi2 then ''gold''
      else ''green'')"

text \<open>
  A small point to run the scan on: two channels of flux 1 and uncertainty 1, no detected
  peak, two harmonics, and a fit that gives amplitude 0 everywhere except at the template
  centre \<open>1/2\<close>, where it does not converge.
\<close>

definition example_env :: env where
  "example_env =
     \<lparr>curve_fit = (\<lambda>loc. if loc = 1 / 2 then None else Some (0, loc)),
      argsort = (\<lambda>xs. [0..<length xs]),
      x_axis_flux = [1, 2],
      y_flux = [1, 1],
      uncert = [1, 1],
      spec_peaks = [],
      ftransition = 1,
      num_gaussians = 2\<rparr>"

subsection \<open>spaced_circle_points\<close>

text \<open>
  \<^verbatim>\<open>
  points = [centre_coords]
  for _ in range(num_points-1):
      while True:
          theta = 2 * np.pi * random()
          r = circle_radius * random()
          x = r * np.cos(theta) + centre_coords[0]
          y = r * np.sin(theta) + centre_coords[1]
          distances = cdist([[x,y]], points, 'euclidean')
          min_distance = min(distances[0])
          if min_distance >= minimum_spread_distance or len(points) == 1:
              points.append([x,y])
              break
  return points
  \<close>
  \<open>random()\<close> is modelled by the sequence \<open>rnd\<close> of the values its successive calls
  return, with the number of calls made so far passed along. The inner loop has no exit
  but acceptance, so it is a partial function: \<open>None\<close> is a loop that never ends.
\<close>

type_synonym point = "real \<times> real"

definition euclidean :: "point \<Rightarrow> point \<Rightarrow> real" where
  "euclidean p q = sqrt ((fst p - fst q)\<^sup>2 + (snd p - snd q)\<^sup>2)"

definition candidate :: "(nat \<Rightarrow> real) \<Rightarrow> real \<Rightarrow> point \<Rightarrow> nat \<Rightarrow> point" where
  "candidate rnd circle_radius centre_coords k =
     (let theta = 2 * pi * rnd k;
          r = circle_radius * rnd (Suc k)
      in (r * cos theta + fst centre_coords, r * sin theta + snd centre_coords))"

partial_function (option) draw_point ::
  "(nat \<Rightarrow> real) \<Rightarrow> real \<Rightarrow> point \<Rightarrow> real \<Rightarrow> point list \<Rightarrow> nat \<Rightarrow> (py_error + point \<times> nat) option"
where
  "draw_point rnd circle_radius centre_coords minimum_spread_distance points k =
     (let p = candidate rnd circle_radius centre_coords k
      in case py_min (map (euclidean p) points) of
           Inl err \<Rightarrow> Some (Inl err)
         | Inr min_distance \<Rightarrow>
             if min_distance \<ge> minimum_spread_distance \<or> length points = 1
             then Some (Inr (p, k + 2))
             else draw_point rnd circle_radius centre_coords minimum_spread_distance points (k + 2))"

fun place_points ::
  "(nat \<Rightarrow> real) \<Rightarrow> real \<Rightarrow> point \<Rightarrow> real \<Rightarrow> nat \<Rightarrow> point list \<Rightarrow> nat \<Rightarrow> (py_error + point list) option"
where
  "place_points rnd circle_radius centre_coords minimum_spread_distance 0 points k =
     Some (Inr points)"
| "place_points rnd circle_radius centre_coords minimum_spread_distance (Suc m) points k =
     (case draw_point rnd circle_radius centre_coords minimum_spread_distance points k of
        None \<Rightarrow> None
      | Some (Inl err) \<Rightarrow> Some (Inl err)
      | Some (Inr (p, k')) \<Rightarrow>
          place_points rnd circle_radius centre_coords minimum_spread_distance m (points @ [p]) k')"

definition spaced_circle_points ::
  "(nat \<Rightarrow> real) \<Rightarrow> int \<Rightarrow> real \<Rightarrow> point \<Rightarrow> real \<Rightarrow> (py_error + point list) option"
where
  "spaced_circle_points rnd num_points circle_radius centre_coords minimum_spread_distance =
     place_points rnd circle_radius centre_coords minimum_spread_distance
       (nat (num_points - 1)) [centre_coords] 0"

text \<open>
  The test of the \<open>if\<close> that ends the inner loop, on a candidate \<open>p\<close>: the least of its
  distances to the points placed so far is at least the separation exactly when each of
  them is.
\<close>

definition accepted :: "real \<Rightarrow> point list \<Rightarrow> point \<Rightarrow> bool" where
  "accepted minimum_spread_distance points p \<longleftrightarrow>
     (\<forall>q\<in>set points. minimum_spread_distance \<le> euclidean p q) \<or> length points = 1"

text \<open>
  The course of a run of the sampler, told by the number of candidates each pass of the
  outer loop rejects before it accepts one: \<open>placed_after \<dots> js points k\<close> is the list
  returned when the passes reject \<open>js\<close> candidates in turn, starting from \<open>points\<close> with
  \<open>k\<close> calls of \<open>random()\<close> made, and \<open>None\<close> when the draws do not go that way.
\<close>

fun placed_after ::
  "(nat \<Rightarrow> real) \<Rightarrow> real \<Rightarrow> point \<Rightarrow> real \<Rightarrow> nat list \<Rightarrow> point list \<Rightarrow> nat \<Rightarrow> point list option"
where
  "placed_after rnd circle_radius centre_coords minimum_spread_distance [] points k = Some points"
| "placed_after rnd circle_radius centre_coords minimum_spread_distance (j # js) points k =
     (if (\<forall>i<j. \<not> accepted minimum_spread_distance points
                    (candidate rnd circle_radius centre_coords (k + 2 * i))) \<and>
         accepted minimum_spread_distance points
           (candidate rnd circle_radius centre_coords (k + 2 * j))
      then placed_after rnd circle_radius centre_coords minimum_spread_distance js
             (points @ [candidate rnd circle_radius centre_coords (k + 2 * j)]) (k + 2 * j + 2)
      else None)"

text \<open>
  A sequence of draws to run the sampler on: the angle is always 0, the radii drawn are
  \<open>1/100\<close>, \<open>1/50\<close> and \<open>1/10\<close> of the circle radius, then 0.
\<close>

definition example_draws :: "nat \<Rightarrow> real" where
  "example_draws k = (if k = 1 then 1 / 100 else if k = 3 then 1 / 50 else if k = 5 then 1 / 10 else 0)"

section \<open>Verification\<close>

declare average_zeroes_loop.simps [simp del]

subsection \<open>average_zeroes: reading the neighbours\<close>

lemma getitem_next: "Suc i < length data \<Longrightarrow> getitem data (int i + 1) = Inr (data ! Suc i)"
  by (simp add: getitem_def nat_add_distrib)

lemma getitem_past_end: "Suc i = length data \<Longrightarrow> getitem data (int i + 1) = Inl IndexError"
  by (auto simp add: getitem_def)

lemma getitem_prev: "0 < i \<Longrightarrow> i < length data \<Longrightarrow> getitem data (int i - 1) = Inr (data ! (i - 1))"
  by (simp add: getitem_def nat_diff_distrib')

lemma getitem_wrap: "data \<noteq> [] \<Longrightarrow> getitem data (int 0 - 1) = Inr (data ! (length data - 1))"
  by (auto simp add: getitem_def nat_diff_distrib' Suc_leI)

lemma getitem_prev_ok: "i < length data \<Longrightarrow> \<exists>l. getitem data (int i - 1) = Inr l"
proof (cases i)
  case 0
  assume "i < length data"
  then have "data \<noteq> []" by auto
  from getitem_wrap [OF this] 0 show ?thesis by simp
next
  case (Suc j)
  assume "i < length data"
  with Suc show ?thesis by (simp add: getitem_def)
qed

lemma average_zeroes_loop_length: "length (store_of (average_zeroes_loop data i)) = length data"
proof (induction data i rule: average_zeroes_loop.induct)
  case (1 data i)
  show ?case
    using "1.IH"
    by (subst average_zeroes_loop.simps) (auto split: sum.splits)
qed

lemma average_zeroes_loop_before: "j < i \<Longrightarrow> store_of (average_zeroes_loop data i) ! j = data ! j"
proof (induction data i rule: average_zeroes_loop.induct)
  case (1 data i)
  show ?case
    using "1.IH" "1.prems"
    by (subst average_zeroes_loop.simps) (auto split: sum.splits)
qed

lemma average_zeroes_loop_raises:
  "i < length data \<Longrightarrow> last data = 0 \<Longrightarrow> \<exists>ys. average_zeroes_loop data i = Raised IndexError ys"
proof (induction data i rule: average_zeroes_loop.induct)
  case (1 data i)
  from "1.prems" have ne: "data \<noteq> []" by auto
  show ?case
  proof (cases "Suc i = length data")
    case True
    with ne "1.prems" have z: "data ! i = 0"
      by (metis diff_Suc_1 last_conv_nth)
    obtain l where l: "getitem data (int i - 1) = Inr l"
      using getitem_prev_ok [OF "1.prems"(1)] by blast
    show ?thesis
      using "1.prems" z l getitem_past_end [OF True]
      by (subst average_zeroes_loop.simps) simp
  next
    case False
    with "1.prems" have lt: "Suc i < length data" by simp
    obtain l where l: "getitem data (int i - 1) = Inr l"
      using getitem_prev_ok [OF "1.prems"(1)] by blast
    have r: "getitem data (int i + 1) = Inr (data ! Suc i)"
      using lt by (rule getitem_next)
    have keep: "last (data[i := v]) = last data" for v
      using lt ne by (simp add: last_conv_nth)
    show ?thesis
    proof (cases "data ! i = 0")
      case True
      have "\<exists>ys. average_zeroes_loop (data[i := (l + data ! Suc i) / 2]) (Suc i) = Raised IndexError ys"
        using "1.IH"(1) [OF "1.prems"(1) True l r] lt keep "1.prems"(2) by simp
      then show ?thesis
        using "1.prems"(1) True l r by (subst average_zeroes_loop.simps) simp
    next
      case False
      have "\<exists>ys. average_zeroes_loop data (Suc i) = Raised IndexError ys"
        using "1.IH"(2) [OF "1.prems"(1) False] lt "1.prems"(2) by simp
      then show ?thesis
        using "1.prems"(1) False by (subst average_zeroes_loop.simps) simp
    qed
  qed
qed

lemma average_zeroes_loop_returns:
  "data = [] \<or> last data \<noteq> 0 \<Longrightarrow> \<exists>ys. average_zeroes_loop data i = Returned ys"
proof (induction data i rule: average_zeroes_loop.induct)
  case (1 data i)
  show ?case
  proof (cases "i < length data")
    case False
    then show ?thesis by (subst average_zeroes_loop.simps) simp
  next
    case True
    then have ne: "data \<noteq> []" by auto
    with "1.prems" have nz: "last data \<noteq> 0" by simp
    show ?thesis
    proof (cases "data ! i = 0")
      case False
      then show ?thesis
        using True "1.IH"(2) [OF True False] "1.prems"
        by (subst average_zeroes_loop.simps) simp
    next
      case z: True
      with nz ne True have lt: "Suc i < length data"
        by (metis Suc_lessI diff_Suc_1 last_conv_nth)
      obtain l where l: "getitem data (int i - 1) = Inr l"
        using getitem_prev_ok [OF True] by blast
      have r: "getitem data (int i + 1) = Inr (data ! Suc i)"
        using lt by (rule getitem_next)
      have keep: "last (data[i := v]) = last data" for v
        using lt ne by (simp add: last_conv_nth)
      show ?thesis
        using True z l r "1.IH"(1) [OF True z l r] nz keep
        by (subst average_zeroes_loop.simps) simp
    qed
  qed
qed

lemma average_zeroes_loop_interior:
  "i \<le> j \<Longrightarrow> 0 < j \<Longrightarrow> Suc j < length data \<Longrightarrow>
   store_of (average_zeroes_loop data i) ! j =
     (if data ! j = 0
      then (store_of (average_zeroes_loop data i) ! (j - 1) + data ! Suc j) / 2
      else data ! j)"
proof (induction data i rule: average_zeroes_loop.induct)
  case (1 data i)
  have ilt: "i < length data" using "1.prems" by simp
  obtain l where l: "getitem data (int i - 1) = Inr l"
    using getitem_prev_ok [OF ilt] by blast
  show ?case
  proof (cases "i = j")
    case True
    have r: "getitem data (int i + 1) = Inr (data ! Suc i)"
      using "1.prems" True by (simp add: getitem_next)
    have l': "l = data ! (i - 1)"
      using l getitem_prev [of i data] "1.prems" True by simp
    show ?thesis
    proof (cases "data ! i = 0")
      case z: True
      let ?d = "data[i := (l + data ! Suc i) / 2]"
      have unf: "average_zeroes_loop data i = average_zeroes_loop ?d (Suc i)"
        using ilt z l r by (subst average_zeroes_loop.simps) simp
      have a: "store_of (average_zeroes_loop ?d (Suc i)) ! i = ?d ! i"
        by (rule average_zeroes_loop_before) simp
      have b: "store_of (average_zeroes_loop ?d (Suc i)) ! (i - 1) = ?d ! (i - 1)"
        using "1.prems" True by (intro average_zeroes_loop_before) simp
      show ?thesis
        using True z unf a b l' ilt "1.prems" by simp
    next
      case nz: False
      have unf: "average_zeroes_loop data i = average_zeroes_loop data (Suc i)"
        using ilt nz by (subst average_zeroes_loop.simps) simp
      have a: "store_of (average_zeroes_loop data (Suc i)) ! i = data ! i"
        by (rule average_zeroes_loop_before) simp
      show ?thesis using True nz unf a by simp
    qed
  next
    case False
    with "1.prems" have le: "Suc i \<le> j" by simp
    then have lt: "Suc i < length data" using "1.prems" by simp
    have r: "getitem data (int i + 1) = Inr (data ! Suc i)"
      using lt by (rule getitem_next)
    show ?thesis
    proof (cases "data ! i = 0")
      case z: True
      let ?d = "data[i := (l + data ! Suc i) / 2]"
      have unf: "average_zeroes_loop data i = average_zeroes_loop ?d (Suc i)"
        using ilt z l r by (subst average_zeroes_loop.simps) simp
      have "store_of (average_zeroes_loop ?d (Suc i)) ! j =
        (if ?d ! j = 0 then (store_of (average_zeroes_loop ?d (Suc i)) ! (j - 1) + ?d ! Suc j) / 2
         else ?d ! j)"
        using "1.IH"(1) [OF ilt z l r le "1.prems"(2)] "1.prems"(3) by simp
      then show ?thesis
        using unf False le by simp
    next
      case nz: False
      have unf: "average_zeroes_loop data i = average_zeroes_loop data (Suc i)"
        using ilt nz by (subst average_zeroes_loop.simps) simp
      show ?thesis
        using "1.IH"(2) [OF ilt nz le "1.prems"(2) "1.prems"(3)] unf by simp
    qed
  qed
qed

lemma average_zeroes_loop_first:
  assumes "2 \<le> length data" "data ! 0 = 0"
  shows "store_of (average_zeroes_loop data 0) ! 0 = (data ! (length data - 1) + data ! 1) / 2"
proof -
  from assms have ne: "data \<noteq> []" by auto
  have l: "getitem data (int 0 - 1) = Inr (data ! (length data - 1))"
    using ne by (rule getitem_wrap)
  have r: "getitem data (int 0 + 1) = Inr (data ! Suc 0)"
    using assms by (intro getitem_next) simp
  let ?d = "data[0 := (data ! (length data - 1) + data ! 1) / 2]"
  have unf: "average_zeroes_loop data 0 = average_zeroes_loop ?d (Suc 0)"
    using assms ne l r by (subst average_zeroes_loop.simps) simp
  have "store_of (average_zeroes_loop ?d (Suc 0)) ! 0 = ?d ! 0"
    by (rule average_zeroes_loop_before) simp
  moreover have "?d ! 0 = (data ! (length data - 1) + data ! 1) / 2"
    using ne by simp
  ultimately show ?thesis using unf by simp
qed

lemma average_zeroes_loop_nonzero:
  "data ! j \<noteq> 0 \<Longrightarrow> store_of (average_zeroes_loop data i) ! j = data ! j"
proof (induction data i rule: average_zeroes_loop.induct)
  case (1 data i)
  have upd: "data ! i = 0 \<Longrightarrow> data[i := v] ! j = data ! j" for v
    using "1.prems" by (cases "i = j") simp_all
  show ?case
    using "1.IH" "1.prems" upd
    by (subst average_zeroes_loop.simps) (auto split: sum.splits)
qed

subsection \<open>average_zeroes: the claims\<close>

text \<open>
  Claim C7, as the code has it. A zero entry at an interior index \<open>j\<close> is replaced by the
  mean of the entry at \<open>j - 1\<close> as the pass has left it (its value in the output) and the
  entry at \<open>j + 1\<close> as it was given; a non-zero interior entry is unchanged. When the left
  neighbour is not zero, this is the mean of the two neighbours of the input. The
  replacements are made whether or not the pass later raises; it returns whenever the last
  entry is not zero, and \<open>[2, 0, 4]\<close> gives \<open>[2, 3, 4]\<close>.
\<close>

theorem average_zeroes_interior:
  "0 < j \<Longrightarrow> Suc j < length data \<Longrightarrow>
   length (store_of (average_zeroes data)) = length data \<and>
   store_of (average_zeroes data) ! j =
     (if data ! j = 0
      then (store_of (average_zeroes data) ! (j - 1) + data ! Suc j) / 2
      else data ! j) \<and>
   (data ! j = 0 \<and> data ! (j - 1) \<noteq> 0 \<longrightarrow>
      store_of (average_zeroes data) ! j = (data ! (j - 1) + data ! Suc j) / 2) \<and>
   (last data \<noteq> 0 \<longrightarrow> average_zeroes data = Returned (store_of (average_zeroes data))) \<and>
   average_zeroes [2, 0, 4] = Returned [2, 3, 4]"
proof -
  assume j: "0 < j" "Suc j < length data"
  have a: "store_of (average_zeroes data) ! j =
     (if data ! j = 0
      then (store_of (average_zeroes data) ! (j - 1) + data ! Suc j) / 2
      else data ! j)"
    unfolding average_zeroes_def using j by (intro average_zeroes_loop_interior) simp_all
  have b: "data ! (j - 1) \<noteq> 0 \<Longrightarrow>
      store_of (average_zeroes data) ! (j - 1) = data ! (j - 1)"
    unfolding average_zeroes_def by (rule average_zeroes_loop_nonzero)
  have c: "last data \<noteq> 0 \<Longrightarrow> average_zeroes data = Returned (store_of (average_zeroes data))"
  proof -
    assume "last data \<noteq> 0"
    then obtain ys where "average_zeroes_loop data 0 = Returned ys"
      using average_zeroes_loop_returns [of data 0] by blast
    then show ?thesis by (simp add: average_zeroes_def)
  qed
  have d: "average_zeroes [2, 0, 4] = Returned [2, 3, 4]"
    by (simp add: average_zeroes_def average_zeroes_loop.simps getitem_def)
  show ?thesis
    using a b c d by (simp add: average_zeroes_def average_zeroes_loop_length)
qed

theorem average_zeroes_interior_witness:
  "(0::nat) < 2 \<and> Suc 2 < length [2, 0, 0, 4 :: real] \<and>
   store_of (average_zeroes [2, 0, 0, 4]) ! 2 = 5 / 2 \<and>
   store_of (average_zeroes [2, 0, 0, 4]) ! (2 - 1) = 1"
proof -
  have r: "average_zeroes [2, 0, 0, 4] = Returned [2, 1, 5 / 2, 4]"
    by (simp add: average_zeroes_def average_zeroes_loop.simps getitem_def)
  show ?thesis
    using average_zeroes_interior [of 2 "[2, 0, 0, 4]"] by (simp add: r)
qed

text \<open>
  With two zeros side by side the replaced values are the mean of neither the neighbours
  given nor the neighbours returned: \<open>[2, 0, 0, 4]\<close> becomes \<open>[2, 1, 5/2, 4]\<close>.
\<close>

theorem average_zeroes_consecutive_zeroes_counterexample:
  "average_zeroes [2, 0, 0, 4] = Returned [2, 1, 5 / 2, 4] \<and>
   [2, 0, 0, 4 :: real] ! 2 = 0 \<and>
   store_of (average_zeroes [2, 0, 0, 4]) ! 2 \<noteq> ([2, 0, 0, 4] ! 1 + [2, 0, 0, 4] ! 3) / 2 \<and>
   [2, 0, 0, 4 :: real] ! 1 = 0 \<and>
   store_of (average_zeroes [2, 0, 0, 4]) ! 1 \<noteq>
     (store_of (average_zeroes [2, 0, 0, 4]) ! 0 + store_of (average_zeroes [2, 0, 0, 4]) ! 2) / 2"
  by (simp add: average_zeroes_def average_zeroes_loop.simps getitem_def)

text \<open>
  Claim C9. A sequence of length \<open>L \<ge> 1\<close> whose last entry is zero makes the pass read
  index \<open>L\<close>, which is out of range: the function raises IndexError and returns nothing.
\<close>

theorem average_zeroes_last_zero_raises:
  "1 \<le> length data \<Longrightarrow> data ! (length data - 1) = 0 \<Longrightarrow>
   getitem data (int (length data)) = Inl IndexError \<and>
   (\<exists>ys. average_zeroes data = Raised IndexError ys)"
proof -
  assume a: "1 \<le> length data" "data ! (length data - 1) = 0"
  then have ne: "data \<noteq> []" by auto
  with a have "last data = 0" by (simp add: last_conv_nth)
  moreover have "0 < length data" using ne by simp
  ultimately have "\<exists>ys. average_zeroes_loop data 0 = Raised IndexError ys"
    by (intro average_zeroes_loop_raises)
  then show ?thesis by (simp add: average_zeroes_def getitem_def)
qed

theorem average_zeroes_last_zero_raises_witness:
  "1 \<le> length [3, 0 :: real] \<and> [3, 0 :: real] ! (length [3, 0 :: real] - 1) = 0 \<and>
   average_zeroes [3, 0] = Raised IndexError [3, 0]"
proof -
  have "average_zeroes [3, 0] = Raised IndexError [3, 0]"
    by (simp add: average_zeroes_def average_zeroes_loop.simps getitem_def)
  then show ?thesis
    using average_zeroes_last_zero_raises [of "[3, 0]"] by simp
qed

text \<open>
  Claim C10. A sequence of length \<open>L \<ge> 2\<close> whose first entry is zero has that entry
  replaced by the mean of the last entry (index \<open>L - 1\<close>, reached as index \<open>-1\<close>) and the
  second entry; the step does not fail, and the function returns unless the last entry is
  zero as well.
\<close>

theorem average_zeroes_first_zero_wraps:
  "2 \<le> length data \<Longrightarrow> data ! 0 = 0 \<Longrightarrow>
   store_of (average_zeroes data) ! 0 = (data ! (length data - 1) + data ! 1) / 2 \<and>
   (last data \<noteq> 0 \<longrightarrow> (\<exists>ys. average_zeroes data = Returned ys))"
  unfolding average_zeroes_def
  using average_zeroes_loop_first [of data] average_zeroes_loop_returns [of data 0]
  by blast

theorem average_zeroes_first_zero_wraps_witness:
  "2 \<le> length [0, 1, 4 :: real] \<and> [0, 1, 4 :: real] ! 0 = 0 \<and>
   average_zeroes [0, 1, 4] = Returned [5 / 2, 1, 4]"
proof -
  have "average_zeroes [0, 1, 4] = Returned [5 / 2, 1, 4]"
    by (simp add: average_zeroes_def average_zeroes_loop.simps getitem_def)
  then show ?thesis
    using average_zeroes_first_zero_wraps [of "[0, 1, 4]"] by simp
qed

subsection \<open>gaussf: the sum of the lobes\<close>

lemma length_lobe: "length (lobe x a s x0 i) = length x"
  by (simp add: lobe_def)

lemma nth_lobe:
  "k < length x \<Longrightarrow> lobe x a s x0 i ! k = a * exp (- (((x ! k - of_int i * x0) / s)\<^sup>2))"
  by (simp add: lobe_def)

lemma iadd_at:
  assumes "length t = n" "k < n"
  shows "(case y of Scalar c \<Rightarrow> True | Array u \<Rightarrow> length u = n) \<Longrightarrow> nd_at (iadd y t) k = nd_at y k + t ! k"
  using assms by (cases y) simp_all

lemma iadd_Array:
  assumes "length t = n"
  shows "(case y of Scalar c \<Rightarrow> True | Array u \<Rightarrow> length u = n) \<Longrightarrow> \<exists>u. iadd y t = Array u \<and> length u = n"
  using assms by (cases y) simp_all

lemma foldl_lobes_at:
  assumes "k < length x"
  shows "(case y of Scalar c \<Rightarrow> True | Array u \<Rightarrow> length u = length x) \<Longrightarrow>
    nd_at (foldl (\<lambda>y i. iadd y (lobe x a s x0 i)) y js) k =
    nd_at y k + (\<Sum>i\<leftarrow>js. a * exp (- (((x ! k - of_int i * x0) / s)\<^sup>2)))"
proof (induction js arbitrary: y)
  case Nil
  then show ?case by simp
next
  case (Cons j js)
  obtain u where u: "iadd y (lobe x a s x0 j) = Array u" "length u = length x"
    using iadd_Array [OF length_lobe, where y = y] Cons.prems by blast
  have "nd_at (iadd y (lobe x a s x0 j)) k = nd_at y k + lobe x a s x0 j ! k"
    using iadd_at [OF length_lobe assms, where y = y] Cons.prems by simp
  moreover have "nd_at (foldl (\<lambda>y i. iadd y (lobe x a s x0 i)) (Array u) js) k =
    nd_at (Array u) k + (\<Sum>i\<leftarrow>js. a * exp (- (((x ! k - of_int i * x0) / s)\<^sup>2)))"
    by (rule Cons.IH) (simp add: u)
  ultimately show ?case
    using u assms by (simp add: nth_lobe)
qed

lemma foldl_lobes_Array:
  "js \<noteq> [] \<Longrightarrow> (case y of Scalar c \<Rightarrow> True | Array u \<Rightarrow> length u = length x) \<Longrightarrow>
    \<exists>u. foldl (\<lambda>y i. iadd y (lobe x a s x0 i)) y js = Array u \<and> length u = length x"
proof (induction js arbitrary: y)
  case Nil
  then show ?case by simp
next
  case (Cons j js)
  obtain u where u: "iadd y (lobe x a s x0 j) = Array u" "length u = length x"
    using iadd_Array [OF length_lobe, where y = y] Cons.prems by blast
  show ?case
  proof (cases "js = []")
    case True
    then show ?thesis using u by simp
  next
    case False
    then show ?thesis using Cons.IH [of "Array u"] u by simp
  qed
qed

lemma length_py_range: "length (py_range lo hi) = nat (hi - lo)"
  by (simp add: py_range_def)

lemma sum_list_py_range: "(\<Sum>i\<leftarrow>py_range lo hi. f i) = (\<Sum>i = lo..hi - 1. f i)"
  by (simp add: py_range_def sum_list_distinct_conv_sum_set)

text \<open>
  Claim C4. At every position \<open>k\<close> of the x-axis, the value of \<open>gaussf x a s x0 n\<close> is the
  sum over \<open>i = 1, \<dots>, n - 1\<close> of \<open>a * exp (- ((x\<^sub>k - i * x0) / s)\<^sup>2)\<close>. The loop adds one
  lobe for each element of \<open>range(1, n)\<close>, that is \<open>n - 1\<close> lobes (none when \<open>n \<le> 1\<close>, where
  the result is the number 0 the loop started from, the empty sum at every position).
\<close>

theorem gaussf_sum_of_lobes:
  "k < length x \<Longrightarrow>
   nd_at (gaussf x a s x0 n) k = (\<Sum>i = 1..n - 1. a * exp (- (((x ! k - of_int i * x0) / s)\<^sup>2))) \<and>
   length (py_range 1 n) = nat (n - 1) \<and>
   (2 \<le> n \<longrightarrow> (\<exists>u. gaussf x a s x0 n = Array u \<and> length u = length x)) \<and>
   (n \<le> 1 \<longrightarrow> gaussf x a s x0 n = Scalar 0)"
proof -
  assume k: "k < length x"
  have "nd_at (gaussf x a s x0 n) k =
      nd_at (Scalar 0) k + (\<Sum>i\<leftarrow>py_range 1 n. a * exp (- (((x ! k - of_int i * x0) / s)\<^sup>2)))"
    unfolding gaussf_def by (rule foldl_lobes_at [OF k]) simp
  then have a: "nd_at (gaussf x a s x0 n) k =
      (\<Sum>i = 1..n - 1. a * exp (- (((x ! k - of_int i * x0) / s)\<^sup>2)))"
    by (simp add: sum_list_py_range)
  have b: "2 \<le> n \<Longrightarrow> \<exists>u. gaussf x a s x0 n = Array u \<and> length u = length x"
  proof -
    assume "2 \<le> n"
    then have "py_range 1 n \<noteq> []" by (simp add: py_range_def)
    then show ?thesis
      unfolding gaussf_def by (rule foldl_lobes_Array) simp
  qed
  have c: "n \<le> 1 \<Longrightarrow> gaussf x a s x0 n = Scalar 0"
    by (simp add: gaussf_def py_range_def)
  show ?thesis using a b c by (simp add: length_py_range)
qed

theorem gaussf_sum_of_lobes_witness:
  "(0::nat) < length [1 :: real] \<and>
   nd_at (gaussf [1] 2 1 1 3) 0 = 2 + 2 * exp (- 1) \<and>
   gaussf [1] 2 1 1 3 = Array [2 + 2 * exp (- 1)]"
proof -
  have s: "{1..2::int} = {1, 2}" by auto
  have g: "gaussf [1] 2 1 1 3 = Array [2 + 2 * exp (- 1)]"
    by (simp add: gaussf_def py_range_def lobe_def upto.simps)
  show ?thesis
    using gaussf_sum_of_lobes [of 0 "[1]" 2 1 1 3] by (simp add: s g)
qed

subsection \<open>The scan: what one candidate appends\<close>

lemma py_max_Inr: "xs \<noteq> [] \<Longrightarrow> py_max xs = Inr (Max (set xs))"
proof (cases xs)
  case Nil
  assume "xs \<noteq> []"
  with Nil show ?thesis by simp
next
  case (Cons x ys)
  have "foldl max a ys = Max (set (a # ys))" for a :: real
  proof (induction ys arbitrary: a)
    case Nil
    show ?case by simp
  next
    case (Cons y ys)
    have "Max (insert a (insert y (set ys))) = Max (insert (max a y) (set ys))"
      by (cases "set ys = {}") (simp_all add: max.assoc)
    with Cons.IH [of "max a y"] show ?case by simp
  qed
  with Cons show ?thesis by simp
qed

lemma zfind_candidate_fail:
  assumes "curve_fit e (ftransition e / (1 + ddz)) = None" "chi2_array \<noteq> []"
  shows "zfind_candidate e (chi2_array, param_array) ddz =
    Inr (chi2_array @ [Max (set chi2_array)], param_array)"
  using assms by (simp add: zfind_candidate_def py_max_Inr)

lemma zfind_candidate_fail_first:
  assumes "curve_fit e (ftransition e / (1 + ddz)) = None"
  shows "zfind_candidate e ([], param_array) ddz = Inl ValueError"
  using assms by (simp add: zfind_candidate_def)

lemma zfind_candidate_fit:
  assumes "curve_fit e (ftransition e / (1 + ddz)) = Some params"
  shows "zfind_candidate e (chi2_array, param_array) ddz =
    Inr (chi2_array @
          [let f_exp = gaussf (x_axis_flux e) (fst params) (snd params)
                         (ftransition e / (1 + ddz)) (num_gaussians e);
               chi2 = chi_squared (y_flux e) f_exp (uncert e)
           in if peak_distance e f_exp > int (length (spec_peaks e)) * 3 \<or> length (spec_peaks e) < 2
              then chi2 * 1.2 else chi2],
         param_array @ [params])"
  using assms by (simp add: zfind_candidate_def Let_def)

lemma zfind_candidate_appends:
  assumes "zfind_candidate e (c, p) ddz = Inr (c', p')"
  shows "\<exists>v. c' = c @ [v]"
proof (cases "curve_fit e (ftransition e / (1 + ddz))")
  case None
  with assms show ?thesis
    by (auto simp add: zfind_candidate_def split: sum.splits)
next
  case (Some params)
  from assms show ?thesis
    unfolding zfind_candidate_fit [OF Some] by auto
qed

lemma zfind_scan_append:
  "zfind_scan e (zs1 @ zs2) st =
     (case zfind_scan e zs1 st of Inl err \<Rightarrow> Inl err | Inr st' \<Rightarrow> zfind_scan e zs2 st')"
  by (induction zs1 arbitrary: st) (simp_all split: sum.splits)

lemma zfind_scan_extends:
  "zfind_scan e zs (c, p) = Inr (c', p') \<Longrightarrow> \<exists>ext. c' = c @ ext \<and> length ext = length zs"
proof (induction zs arbitrary: c p)
  case Nil
  then show ?case by simp
next
  case (Cons z zs)
  from Cons.prems obtain c1 p1 where
    step: "zfind_candidate e (c, p) z = Inr (c1, p1)" and rest: "zfind_scan e zs (c1, p1) = Inr (c', p')"
    by (auto split: sum.splits)
  from zfind_candidate_appends [OF step] obtain v where v: "c1 = c @ [v]" by blast
  from Cons.IH [OF rest] obtain ext where "c' = c1 @ ext" "length ext = length zs" by blast
  with v have "c' = c @ (v # ext) \<and> length (v # ext) = length (z # zs)" by simp
  then show ?case by blast
qed

lemma zfind_scan_at:
  assumes "zfind_scan e zs ([], []) = Inr (chis, ps)" "i < length zs"
  shows "length chis = length zs \<and>
    (\<exists>p p'. zfind_candidate e (take i chis, p) (zs ! i) = Inr (take (Suc i) chis, p'))"
proof -
  have split: "zs = take i zs @ [zs ! i] @ drop (Suc i) zs"
    using assms(2) by (simp add: id_take_nth_drop [symmetric])
  from zfind_scan_extends [OF assms(1)] have len: "length chis = length zs" by auto
  from assms(1) obtain c1 p1 where
    a: "zfind_scan e (take i zs) ([], []) = Inr (c1, p1)" and
    b: "zfind_scan e ([zs ! i] @ drop (Suc i) zs) (c1, p1) = Inr (chis, ps)"
    by (subst (asm) split, subst (asm) zfind_scan_append) (auto split: sum.splits)
  from b obtain c2 p2 where
    c: "zfind_candidate e (c1, p1) (zs ! i) = Inr (c2, p2)" and
    d: "zfind_scan e (drop (Suc i) zs) (c2, p2) = Inr (chis, ps)"
    by (auto split: sum.splits)
  from zfind_scan_extends [OF a] assms(2) have l1: "length c1 = i" by auto
  from zfind_candidate_appends [OF c] obtain v where v: "c2 = c1 @ [v]" by blast
  from zfind_scan_extends [OF d] obtain ext where ext: "chis = c2 @ ext" by blast
  have "take i chis = c1" "take (Suc i) chis = c2"
    using l1 v ext by simp_all
  with c len show ?thesis by blast
qed

lemma zfind_scan_total:
  "c \<noteq> [] \<Longrightarrow> \<exists>st. zfind_scan e zs (c, p) = Inr st"
proof (induction zs arbitrary: c p)
  case Nil
  then show ?case by simp
next
  case (Cons z zs)
  have "\<exists>v p'. zfind_candidate e (c, p) z = Inr (c @ [v], p')"
  proof (cases "curve_fit e (ftransition e / (1 + z))")
    case None
    then show ?thesis using zfind_candidate_fail [OF None Cons.prems] by blast
  next
    case (Some params)
    then show ?thesis using zfind_candidate_fit [OF Some] by blast
  qed
  then obtain v p' where step: "zfind_candidate e (c, p) z = Inr (c @ [v], p')" by blast
  from Cons.IH [of "c @ [v]" p'] show ?case by (simp add: step)
qed

lemma zfind_scan_first_fits:
  assumes "zs = [] \<or> curve_fit e (ftransition e / (1 + zs ! 0)) \<noteq> None"
  shows "\<exists>st. zfind_scan e zs ([], []) = Inr st"
proof (cases zs)
  case Nil
  then show ?thesis by simp
next
  case (Cons z zs')
  with assms obtain params where fit: "curve_fit e (ftransition e / (1 + z)) = Some params"
    by auto
  obtain v where step: "zfind_candidate e ([], []) z = Inr ([v], [params])"
    using zfind_candidate_fit [OF fit, of "[]" "[]"] by simp
  from zfind_scan_total [of "[v]" e zs' "[params]"] show ?thesis
    by (simp add: Cons step)
qed

lemma zfind_scan_first_fails:
  assumes "zs \<noteq> []" "curve_fit e (ftransition e / (1 + zs ! 0)) = None"
  shows "zfind_scan e zs ([], []) = Inl ValueError"
  using assms by (cases zs) (simp_all add: zfind_candidate_fail_first)

lemma zfind_scan_lengths:
  "zfind_scan e zs (c, p) = Inr (c', p') \<Longrightarrow>
   length c' = length c + length zs \<and>
   length p' = length p + length (filter (\<lambda>z. curve_fit e (ftransition e / (1 + z)) \<noteq> None) zs)"
proof (induction zs arbitrary: c p)
  case Nil
  then show ?case by simp
next
  case (Cons z zs)
  from Cons.prems obtain c1 p1 where
    step: "zfind_candidate e (c, p) z = Inr (c1, p1)" and rest: "zfind_scan e zs (c1, p1) = Inr (c', p')"
    by (auto split: sum.splits)
  have "length c1 = Suc (length c) \<and>
    length p1 = length p + (if curve_fit e (ftransition e / (1 + z)) \<noteq> None then 1 else 0)"
  proof (cases "curve_fit e (ftransition e / (1 + z))")
    case None
    with step show ?thesis by (auto simp add: zfind_candidate_def split: sum.splits)
  next
    case (Some params)
    from step show ?thesis unfolding zfind_candidate_fit [OF Some] using Some by auto
  qed
  with Cons.IH [OF rest] show ?case by simp
qed

lemma chi_squared_nonneg: "0 \<le> chi_squared ys f us"
  unfolding chi_squared_def by (rule sum_list_nonneg) auto

lemma zfind_candidate_nonneg:
  assumes "zfind_candidate e (c, p) ddz = Inr (c', p')" "\<forall>v\<in>set c. 0 \<le> v"
  shows "\<forall>v\<in>set c'. 0 \<le> v"
proof (cases "curve_fit e (ftransition e / (1 + ddz))")
  case None
  show ?thesis
  proof (cases "c = []")
    case True
    with assms None show ?thesis by (simp add: zfind_candidate_def)
  next
    case False
    then have "Max (set c) \<in> set c" by (intro Max_in) simp_all
    with assms show ?thesis
      unfolding zfind_candidate_fail [OF None False] by auto
  qed
next
  case (Some params)
  from assms show ?thesis
    unfolding zfind_candidate_fit [OF Some]
    by (auto simp add: Let_def chi_squared_nonneg)
qed

lemma zfind_scan_nonneg:
  "zfind_scan e zs (c, p) = Inr (c', p') \<Longrightarrow> \<forall>v\<in>set c. 0 \<le> v \<Longrightarrow> \<forall>v\<in>set c'. 0 \<le> v"
proof (induction zs arbitrary: c p)
  case Nil
  then show ?case by simp
next
  case (Cons z zs)
  from Cons.prems(1) obtain c1 p1 where
    step: "zfind_candidate e (c, p) z = Inr (c1, p1)" and rest: "zfind_scan e zs (c1, p1) = Inr (c', p')"
    by (auto split: sum.splits)
  from Cons.IH [OF rest zfind_candidate_nonneg [OF step Cons.prems(2)]] show ?case .
qed

lemma py_min_Inr: "xs \<noteq> [] \<Longrightarrow> py_min xs = Inr (Min (set xs))"
proof (cases xs)
  case Nil
  assume "xs \<noteq> []"
  with Nil show ?thesis by simp
next
  case (Cons x ys)
  have "foldl min a ys = Min (set (a # ys))" for a :: real
  proof (induction ys arbitrary: a)
    case Nil
    show ?case by simp
  next
    case (Cons y ys)
    have "Min (insert a (insert y (set ys))) = Min (insert (min a y) (set ys))"
      by (cases "set ys = {}") (simp_all add: min.assoc)
    with Cons.IH [of "min a y"] show ?case by simp
  qed
  with Cons show ?thesis by simp
qed

lemma zfind_min_chi2_nonneg:
  assumes "zfind_scan e zs ([], []) = Inr (chis, ps)" "py_min chis = Inr r"
  shows "0 \<le> r"
proof -
  from assms(2) have ne: "chis \<noteq> []" by auto
  from zfind_scan_nonneg [OF assms(1)] have "\<forall>v\<in>set chis. 0 \<le> v" by simp
  moreover have "r = Min (set chis)" using assms(2) py_min_Inr [OF ne] by simp
  moreover have "Min (set chis) \<in> set chis" using ne by (intro Min_in) simp_all
  ultimately show ?thesis by simp
qed

subsection \<open>The scan on the example point\<close>

lemma example_gaussf: "gaussf [1, 2] 0 s loc 2 = Array [0, 0]"
  by (simp add: gaussf_def py_range_def lobe_def upto.simps)

lemma example_scan:
  "zfind_scan example_env [0, 1, 2] ([], []) = Inr ([12 / 5, 12 / 5, 12 / 5], [(0, 1), (0, 1 / 3)])"
  by (simp add: zfind_candidate_def example_env_def example_gaussf chi_squared_def
      peak_distance_def exp_peak_def)

lemma example_fit_0: "curve_fit example_env (ftransition example_env / (1 + [0, 1, 2] ! 0)) = Some (0, 1)"
  by (simp add: example_env_def)

lemma example_fit_1: "curve_fit example_env (ftransition example_env / (1 + [0, 1, 2] ! 1)) = None"
  by (simp add: example_env_def)

lemma example_fit_2: "curve_fit example_env (ftransition example_env / (1 + [0, 1, 2] ! 2)) = Some (0, 1 / 3)"
  by (simp add: example_env_def)

lemma example_scan_peaks:
  "zfind_scan (example_env\<lparr>spec_peaks := [0, 1]\<rparr>) [0, 1, 2] ([], []) =
     Inr ([2, 2, 2], [(0, 1), (0, 1 / 3)])"
  by (simp add: zfind_candidate_def example_env_def example_gaussf chi_squared_def
      peak_distance_def exp_peak_def)

lemma example_peak_distance:
  "peak_distance (example_env\<lparr>spec_peaks := [0, 1]\<rparr>) (gaussf [1, 2] 0 s loc 2) = 0"
  by (simp add: example_env_def example_gaussf peak_distance_def exp_peak_def)

subsection \<open>The scan: the claims\<close>

text \<open>
  Claim C1. For every candidate of the grid whose fit converges, the chi-squared recorded
  is the chi-squared of the fit multiplied by 1.2 exactly when the total peak distance
  exceeds 3 times the number of detected peaks or fewer than 2 peaks were detected, and
  the chi-squared of the fit itself otherwise. With no detected peak it is always
  multiplied; with at least 2 detected peaks at total distance 0 it never is.
\<close>

theorem zfind_penalty_rule:
  assumes "zfind_scan e zs ([], []) = Inr (chis, ps)"
    and "i < length zs"
    and "curve_fit e (ftransition e / (1 + zs ! i)) = Some params"
    and "f_exp = gaussf (x_axis_flux e) (fst params) (snd params)
                   (ftransition e / (1 + zs ! i)) (num_gaussians e)"
    and "chi2 = chi_squared (y_flux e) f_exp (uncert e)"
    and "num_spec_peaks = int (length (spec_peaks e))"
  shows "chis ! i =
           (if peak_distance e f_exp > 3 * num_spec_peaks \<or> num_spec_peaks < 2
            then chi2 * 1.2 else chi2) \<and>
         (num_spec_peaks = 0 \<longrightarrow> chis ! i = chi2 * 1.2) \<and>
         (2 \<le> num_spec_peaks \<and> peak_distance e f_exp = 0 \<longrightarrow> chis ! i = chi2)"
proof -
  from zfind_scan_at [OF assms(1,2)] obtain p p' where
    len: "length chis = length zs" and
    step: "zfind_candidate e (take i chis, p) (zs ! i) = Inr (take (Suc i) chis, p')"
    by blast
  let ?v = "if peak_distance e f_exp > 3 * num_spec_peaks \<or> num_spec_peaks < 2
            then chi2 * 1.2 else chi2"
  have "zfind_candidate e (take i chis, p) (zs ! i) = Inr (take i chis @ [?v], p @ [params])"
    unfolding zfind_candidate_fit [OF assms(3)] assms(4,5,6) Let_def
    by (simp add: mult.commute)
  with step have "take (Suc i) chis = take i chis @ [?v]"
    by (simp only: sum.inject prod.inject)
  moreover have "take (Suc i) chis = take i chis @ [chis ! i]"
    using assms(2) len by (simp add: take_Suc_conv_app_nth)
  ultimately have "chis ! i = ?v" by simp
  then show ?thesis by simp
qed

theorem zfind_penalty_rule_witness:
  "zfind_scan example_env [0, 1, 2] ([], []) = Inr ([12 / 5, 12 / 5, 12 / 5], [(0, 1), (0, 1 / 3)]) \<and>
   (2::nat) < length [0, 1, 2 :: real] \<and>
   curve_fit example_env (ftransition example_env / (1 + [0, 1, 2] ! 2)) = Some (0, 1 / 3) \<and>
   int (length (spec_peaks example_env)) = 0 \<and>
   [12 / 5, 12 / 5, 12 / 5 :: real] ! 2 =
     chi_squared (y_flux example_env)
       (gaussf (x_axis_flux example_env) 0 (1 / 3)
          (ftransition example_env / (1 + [0, 1, 2] ! 2)) (num_gaussians example_env))
       (uncert example_env) * 1.2 \<and>
   zfind_scan (example_env\<lparr>spec_peaks := [0, 1]\<rparr>) [0, 1, 2] ([], []) =
     Inr ([2, 2, 2], [(0, 1), (0, 1 / 3)]) \<and>
   int (length (spec_peaks (example_env\<lparr>spec_peaks := [0, 1]\<rparr>))) = 2 \<and>
   peak_distance (example_env\<lparr>spec_peaks := [0, 1]\<rparr>) (gaussf [1, 2] 0 (1 / 3) (1 / 3) 2) = 0 \<and>
   [2, 2, 2 :: real] ! 2 = chi_squared [1, 1] (gaussf [1, 2] 0 (1 / 3) (1 / 3) 2) [1, 1]"
proof -
  have n: "int (length (spec_peaks example_env)) = 0"
    by (simp add: example_env_def)
  have fit: "curve_fit (example_env\<lparr>spec_peaks := [0, 1]\<rparr>)
      (ftransition (example_env\<lparr>spec_peaks := [0, 1]\<rparr>) / (1 + [0, 1, 2] ! 2)) = Some (0, 1 / 3)"
    by (simp add: example_env_def)
  have a: "[12 / 5, 12 / 5, 12 / 5 :: real] ! 2 =
     chi_squared (y_flux example_env)
       (gaussf (x_axis_flux example_env) 0 (1 / 3)
          (ftransition example_env / (1 + [0, 1, 2] ! 2)) (num_gaussians example_env))
       (uncert example_env) * 1.2"
    using zfind_penalty_rule [OF example_scan _ example_fit_2 refl refl refl] n by simp
  have b: "[2, 2, 2 :: real] ! 2 = chi_squared [1, 1] (gaussf [1, 2] 0 (1 / 3) (1 / 3) 2) [1, 1]"
    using zfind_penalty_rule [OF example_scan_peaks _ fit refl refl refl] example_peak_distance
    by (simp add: example_env_def)
  show ?thesis
    using a b n example_scan example_fit_2 example_scan_peaks example_peak_distance
    by (simp add: example_env_def)
qed

text \<open>
  Claim C2. When the fit fails for a candidate that is not the first of the point (the
  first having converged, so that the scan got that far), the scan still ends normally,
  and the chi-squared it records for that candidate is the greatest of those recorded for
  the earlier candidates. The failing pass changes nothing else: it raises no error and
  appends that one value to the chi-squared list.
\<close>

theorem zfind_fit_failure_substitutes_max:
  assumes "curve_fit e (ftransition e / (1 + zs ! 0)) \<noteq> None"
    and "0 < i" and "i < length zs"
    and "curve_fit e (ftransition e / (1 + zs ! i)) = None"
  shows "\<exists>chis ps. zfind_scan e zs ([], []) = Inr (chis, ps) \<and>
           length chis = length zs \<and>
           chis ! i = Max (set (take i chis)) \<and>
           (\<forall>chi2_array param_array. chi2_array \<noteq> [] \<longrightarrow>
              zfind_candidate e (chi2_array, param_array) (zs ! i) =
                Inr (chi2_array @ [Max (set chi2_array)], param_array))"
proof -
  from zfind_scan_first_fits [of zs e] assms(1) obtain chis ps where
    scan: "zfind_scan e zs ([], []) = Inr (chis, ps)" by auto
  from zfind_scan_at [OF scan assms(3)] obtain p p' where
    len: "length chis = length zs" and
    step: "zfind_candidate e (take i chis, p) (zs ! i) = Inr (take (Suc i) chis, p')"
    by blast
  have ne: "take i chis \<noteq> []" using assms(2,3) len by auto
  from step have "take (Suc i) chis = take i chis @ [Max (set (take i chis))]"
    unfolding zfind_candidate_fail [OF assms(4) ne] by simp
  moreover have "take (Suc i) chis = take i chis @ [chis ! i]"
    using assms(3) len by (simp add: take_Suc_conv_app_nth)
  ultimately have "chis ! i = Max (set (take i chis))" by simp
  with scan len zfind_candidate_fail [OF assms(4)] show ?thesis by blast
qed

theorem zfind_fit_failure_substitutes_max_witness:
  "curve_fit example_env (ftransition example_env / (1 + [0, 1, 2] ! 0)) \<noteq> None \<and>
   (0::nat) < 1 \<and> (1::nat) < length [0, 1, 2 :: real] \<and>
   curve_fit example_env (ftransition example_env / (1 + [0, 1, 2] ! 1)) = None \<and>
   zfind_scan example_env [0, 1, 2] ([], []) = Inr ([12 / 5, 12 / 5, 12 / 5], [(0, 1), (0, 1 / 3)]) \<and>
   [12 / 5, 12 / 5, 12 / 5 :: real] ! 1 = Max (set (take 1 [12 / 5, 12 / 5, 12 / 5]))"
proof -
  have a: "curve_fit example_env (ftransition example_env / (1 + [0, 1, 2] ! 0)) \<noteq> None"
    using example_fit_0 by simp
  have b: "(1::nat) < length [0, 1, 2 :: real]" by simp
  from zfind_fit_failure_substitutes_max [OF a zero_less_one b example_fit_1]
  show ?thesis
    using a example_fit_1 example_scan by simp
qed

text \<open>
  Claim C3. Let \<open>r\<close> be the least chi-squared of the scan of the origin and \<open>m\<close> the least
  chi-squared of a later point. The point is red ("improved") when \<open>m \<le> r\<close>, gold
  ("comparable") when \<open>r < m \<le> 1.05 r\<close>, and green ("worse") when \<open>m > 1.05 r\<close>; with
  \<open>r = 100\<close>, 105 is gold, 106 green and 99 red. The three cases exclude one another because
  a chi-squared is never negative.
\<close>

theorem plot_colour_categories:
  assumes "zfind_scan e zs ([], []) = Inr (chi2_array, param_array)"
    and "py_min chi2_array = Inr r"
    and "0 < index"
  shows "(m \<le> r \<longrightarrow> plot_colour index r m = ''red'') \<and>
         (r < m \<and> m \<le> 1.05 * r \<longrightarrow> plot_colour index r m = ''gold'') \<and>
         (m > 1.05 * r \<longrightarrow> plot_colour index r m = ''green'') \<and>
         plot_colour index 100 105 = ''gold'' \<and>
         plot_colour index 100 106 = ''green'' \<and>
         plot_colour index 100 99 = ''red''"
proof -
  have "0 \<le> r" using assms(1,2) by (rule zfind_min_chi2_nonneg)
  then have "r \<le> 1.05 * r" by simp
  then show ?thesis using assms(3) by (auto simp add: plot_colour_def)
qed

theorem plot_colour_categories_witness:
  "zfind_scan example_env [0, 1, 2] ([], []) = Inr ([12 / 5, 12 / 5, 12 / 5], [(0, 1), (0, 1 / 3)]) \<and>
   py_min [12 / 5, 12 / 5, 12 / 5] = Inr (12 / 5) \<and> (0::nat) < 1 \<and>
   plot_colour 1 (12 / 5) 2 = ''red'' \<and>
   plot_colour 1 (12 / 5) (5 / 2) = ''gold'' \<and>
   plot_colour 1 (12 / 5) 3 = ''green''"
proof -
  have m: "py_min [12 / 5, 12 / 5, 12 / 5] = Inr (12 / 5)" by simp
  show ?thesis
    using plot_colour_categories [OF example_scan m zero_less_one, of 2]
      plot_colour_categories [OF example_scan m zero_less_one, of "5 / 2"]
      plot_colour_categories [OF example_scan m zero_less_one, of 3]
      example_scan m
    by simp
qed

text \<open>
  Claim C8 does not hold of the scan: a candidate whose fit fails gets a chi-squared but no
  entry in the parameter list, so the entries of later candidates move one place down. On
  the example point the fit of the second of three candidates fails: three chi-squared
  values are recorded and two parameter entries, the second of which is the fit of the
  third candidate.
\<close>

theorem zfind_params_not_aligned:
  "zfind_scan example_env [0, 1, 2] ([], []) = Inr ([12 / 5, 12 / 5, 12 / 5], [(0, 1), (0, 1 / 3)]) \<and>
   length [12 / 5, 12 / 5, 12 / 5 :: real] = length [0, 1, 2 :: real] \<and>
   length [(0, 1), (0, 1 / 3) :: real \<times> real] < length [0, 1, 2 :: real] \<and>
   curve_fit example_env (ftransition example_env / (1 + [0, 1, 2] ! 1)) = None \<and>
   curve_fit example_env (ftransition example_env / (1 + [0, 1, 2] ! 2)) =
     Some ([(0, 1), (0, 1 / 3)] ! 1)"
  using example_scan example_fit_1 example_fit_2 by simp

subsection \<open>spaced_circle_points: drawing one point\<close>

lemma draw_point_step:
  assumes "pts \<noteq> []"
  shows "draw_point rnd R c D pts k =
    (if (\<forall>q\<in>set pts. D \<le> euclidean (candidate rnd R c k) q) \<or> length pts = 1
     then Some (Inr (candidate rnd R c k, k + 2))
     else draw_point rnd R c D pts (k + 2))"
proof -
  have "D \<le> Min (set (map (euclidean (candidate rnd R c k)) pts)) \<longleftrightarrow>
    (\<forall>q\<in>set pts. D \<le> euclidean (candidate rnd R c k) q)"
    using assms by (subst Min_ge_iff) auto
  then show ?thesis
    using assms by (subst draw_point.simps) (simp add: py_min_Inr Let_def)
qed

lemma draw_point_sound:
  assumes "draw_point rnd R c D pts k = Some res"
  shows "pts \<noteq> [] \<longrightarrow>
    (\<exists>j. res = Inr (candidate rnd R c (k + 2 * j), k + 2 * j + 2) \<and>
         ((\<forall>q\<in>set pts. D \<le> euclidean (candidate rnd R c (k + 2 * j)) q) \<or> length pts = 1))"
proof (rule draw_point.raw_induct [where P = "\<lambda>rnd R c D pts k res. pts \<noteq> [] \<longrightarrow>
    (\<exists>j. res = Inr (candidate rnd R c (k + 2 * j), k + 2 * j + 2) \<and>
         ((\<forall>q\<in>set pts. D \<le> euclidean (candidate rnd R c (k + 2 * j)) q) \<or> length pts = 1))",
    OF _ assms])
  fix f :: "(nat \<Rightarrow> real) \<Rightarrow> real \<Rightarrow> point \<Rightarrow> real \<Rightarrow> point list \<Rightarrow> nat \<Rightarrow> (py_error + point \<times> nat) option"
    and rnd R c D pts k res
  assume IH: "\<And>rnd R c D pts k res. f rnd R c D pts k = Some res \<Longrightarrow> pts \<noteq> [] \<longrightarrow>
    (\<exists>j. res = Inr (candidate rnd R c (k + 2 * j), k + 2 * j + 2) \<and>
         ((\<forall>q\<in>set pts. D \<le> euclidean (candidate rnd R c (k + 2 * j)) q) \<or> length pts = 1))"
  assume body: "(let p = candidate rnd R c k
      in case py_min (map (euclidean p) pts) of Inl err \<Rightarrow> Some (Inl err)
         | Inr min_distance \<Rightarrow>
             if D \<le> min_distance \<or> length pts = 1
             then Some (Inr (p, k + 2))
             else f rnd R c D pts (k + 2)) = Some res"
  show "pts \<noteq> [] \<longrightarrow>
    (\<exists>j. res = Inr (candidate rnd R c (k + 2 * j), k + 2 * j + 2) \<and>
         ((\<forall>q\<in>set pts. D \<le> euclidean (candidate rnd R c (k + 2 * j)) q) \<or> length pts = 1))"
  proof
    assume ne: "pts \<noteq> []"
    have minge: "D \<le> Min (set (map (euclidean (candidate rnd R c k)) pts)) \<longleftrightarrow>
      (\<forall>q\<in>set pts. D \<le> euclidean (candidate rnd R c k) q)"
      using ne by (subst Min_ge_iff) auto
    from body have body': "(if (\<forall>q\<in>set pts. D \<le> euclidean (candidate rnd R c k) q) \<or> length pts = 1
         then Some (Inr (candidate rnd R c k, k + 2))
         else f rnd R c D pts (k + 2)) = Some res"
      using ne minge by (simp add: py_min_Inr Let_def)
    show "\<exists>j. res = Inr (candidate rnd R c (k + 2 * j), k + 2 * j + 2) \<and>
         ((\<forall>q\<in>set pts. D \<le> euclidean (candidate rnd R c (k + 2 * j)) q) \<or> length pts = 1)"
    proof (cases "(\<forall>q\<in>set pts. D \<le> euclidean (candidate rnd R c k) q) \<or> length pts = 1")
      case True
      with body' have "res = Inr (candidate rnd R c k, k + 2)"
        by (simp only: if_True option.inject)
      with True show ?thesis by (intro exI [of _ 0]) simp
    next
      case False
      with body' have "f rnd R c D pts (k + 2) = Some res"
        by (simp only: if_False)
      from IH [OF this] ne obtain j where
        "res = Inr (candidate rnd R c (k + 2 + 2 * j), k + 2 + 2 * j + 2)"
        "(\<forall>q\<in>set pts. D \<le> euclidean (candidate rnd R c (k + 2 + 2 * j)) q) \<or> length pts = 1"
        by blast
      then show ?thesis by (intro exI [of _ "Suc j"]) (simp add: add.assoc)
    qed
  qed
qed

lemma draw_point_diverges:
  assumes "pts \<noteq> []" "length pts \<noteq> 1"
    and "\<And>j. \<exists>q\<in>set pts. euclidean (candidate rnd R c (k + 2 * j)) q < D"
  shows "draw_point rnd R c D pts k = None"
proof (rule ccontr)
  assume "draw_point rnd R c D pts k \<noteq> None"
  then obtain res where "draw_point rnd R c D pts k = Some res" by auto
  from draw_point_sound [OF this] assms(1,2) obtain j where
    "\<forall>q\<in>set pts. D \<le> euclidean (candidate rnd R c (k + 2 * j)) q" by blast
  with assms(3) [of j] show False by force
qed

lemma euclidean_candidate_centre: "euclidean (candidate rnd R c k) c = \<bar>R * rnd (Suc k)\<bar>"
proof -
  have "(r * cos t)\<^sup>2 + (r * sin t)\<^sup>2 = r\<^sup>2" for r t :: real
  proof -
    have "(r * cos t)\<^sup>2 + (r * sin t)\<^sup>2 = r\<^sup>2 * ((cos t)\<^sup>2 + (sin t)\<^sup>2)"
      by (simp add: power_mult_distrib flip: distrib_left)
    then show ?thesis by simp
  qed
  then show ?thesis
    by (simp add: euclidean_def candidate_def Let_def)
qed

subsection \<open>spaced_circle_points: placing the points\<close>

lemma place_points_sound:
  assumes "place_points rnd R c D m pts k = Some res" "pts \<noteq> []"
  shows "\<exists>out. res = Inr out \<and> length out = length pts + m \<and> take (length pts) out = pts \<and>
    (\<forall>i j. i < j \<and> length pts \<le> j \<and> j < length out \<and> 2 \<le> j \<longrightarrow>
       D \<le> euclidean (out ! j) (out ! i))"
  using assms
proof (induction m arbitrary: pts k)
  case 0
  then show ?case by auto
next
  case (Suc m)
  from Suc.prems(1) obtain r1 where d: "draw_point rnd R c D pts k = Some r1"
    by (auto split: option.splits)
  from draw_point_sound [OF d] Suc.prems(2) obtain j0 where
    r1: "r1 = Inr (candidate rnd R c (k + 2 * j0), k + 2 * j0 + 2)" and
    acc: "(\<forall>q\<in>set pts. D \<le> euclidean (candidate rnd R c (k + 2 * j0)) q) \<or> length pts = 1"
    by blast
  let ?p = "candidate rnd R c (k + 2 * j0)"
  from Suc.prems(1) d r1 have
    rest: "place_points rnd R c D m (pts @ [?p]) (k + 2 * j0 + 2) = Some res" by simp
  from Suc.IH [OF rest] obtain out where
    out: "res = Inr out" "length out = length (pts @ [?p]) + m"
      "take (length (pts @ [?p])) out = pts @ [?p]" and
    far: "\<forall>i j. i < j \<and> length (pts @ [?p]) \<le> j \<and> j < length out \<and> 2 \<le> j \<longrightarrow>
       D \<le> euclidean (out ! j) (out ! i)"
    by auto
  have nth: "i < Suc (length pts) \<Longrightarrow> out ! i = (pts @ [?p]) ! i" for i
    using out(3) by (metis length_append_singleton nth_take)
  have pre: "take (length pts) out = pts"
  proof -
    have "take (length pts) (take (length (pts @ [?p])) out) = take (length pts) (pts @ [?p])"
      by (simp only: out(3))
    then show ?thesis by (simp add: min_def)
  qed
  have "D \<le> euclidean (out ! j) (out ! i)"
    if ij: "i < j" "length pts \<le> j" "j < length out" "2 \<le> j" for i j
  proof (cases "j = length pts")
    case True
    then have lne: "length pts \<noteq> 1" using ij(4) by simp
    have "out ! j = ?p" using nth [of j] True by simp
    moreover have "out ! i = pts ! i" using nth [of i] ij(1) True by (simp add: nth_append)
    moreover have "pts ! i \<in> set pts" using ij(1) True by simp
    ultimately show ?thesis using acc lne by auto
  next
    case False
    with ij have "length (pts @ [?p]) \<le> j" by simp
    with far ij show ?thesis by blast
  qed
  with out pre show ?case by auto
qed

lemma place_points_one:
  "place_points rnd R c D (Suc 0) [q] k = Some (Inr [q, candidate rnd R c k])"
  by (simp add: draw_point_step)

lemma place_points_diverges:
  assumes "0 \<le> R" "R < D" "\<And>k. 0 \<le> rnd k \<and> rnd k \<le> 1"
  shows "place_points rnd R c D (Suc (Suc m)) [c] k = None"
proof -
  let ?p = "candidate rnd R c k"
  have first: "draw_point rnd R c D [c] k = Some (Inr (?p, k + 2))"
    by (simp add: draw_point_step)
  have "\<exists>q\<in>set [c, ?p]. euclidean (candidate rnd R c (k + 2 + 2 * j)) q < D" for j
  proof -
    have "\<bar>R * rnd (Suc (k + 2 + 2 * j))\<bar> = R * rnd (Suc (k + 2 + 2 * j))"
      using assms(1,3) by simp
    also have "\<dots> \<le> R * 1"
      using assms(1,3) by (intro mult_left_mono) simp_all
    finally have "euclidean (candidate rnd R c (k + 2 + 2 * j)) c < D"
      using assms(2) by (simp add: euclidean_candidate_centre)
    then show ?thesis by simp
  qed
  then have "draw_point rnd R c D [c, ?p] (k + 2) = None"
    by (intro draw_point_diverges) simp_all
  with first show ?thesis by simp
qed

lemma spaced_circle_points_diverges:
  assumes "3 \<le> N" "0 \<le> R" "R < D" "\<And>k. 0 \<le> rnd k \<and> rnd k \<le> 1"
  shows "spaced_circle_points rnd N R c D = None"
proof -
  from assms(1) have "nat (N - 1) = Suc (Suc (nat (N - 3)))" by arith
  then show ?thesis
    unfolding spaced_circle_points_def
    using place_points_diverges [OF assms(2,3,4)] by simp
qed

subsection \<open>spaced_circle_points: when the loops end\<close>

lemma draw_point_accepted:
  assumes "pts \<noteq> []"
  shows "draw_point rnd R c D pts k =
    (if accepted D pts (candidate rnd R c k) then Some (Inr (candidate rnd R c k, k + 2))
     else draw_point rnd R c D pts (k + 2))"
  unfolding accepted_def by (rule draw_point_step [OF assms])

lemma draw_point_first:
  assumes "pts \<noteq> []"
  shows "(\<forall>i<j. \<not> accepted D pts (candidate rnd R c (k + 2 * i))) \<Longrightarrow>
    accepted D pts (candidate rnd R c (k + 2 * j)) \<Longrightarrow>
    draw_point rnd R c D pts k = Some (Inr (candidate rnd R c (k + 2 * j), k + 2 * j + 2))"
proof (induction j arbitrary: k)
  case 0
  then show ?case by (subst draw_point_accepted [OF assms]) simp
next
  case (Suc j)
  from Suc.prems(1) have rej: "\<not> accepted D pts (candidate rnd R c k)"
    by (metis add_0_right mult_0_right zero_less_Suc)
  have "\<forall>i<j. \<not> accepted D pts (candidate rnd R c (k + 2 + 2 * i))"
  proof (intro allI impI)
    fix i assume "i < j"
    then have "Suc i < Suc j" by simp
    with Suc.prems(1) have "\<not> accepted D pts (candidate rnd R c (k + 2 * Suc i))" by blast
    then show "\<not> accepted D pts (candidate rnd R c (k + 2 + 2 * i))" by (simp add: add.assoc)
  qed
  moreover have "accepted D pts (candidate rnd R c (k + 2 + 2 * j))"
    using Suc.prems(2) by (simp add: add.assoc)
  ultimately have "draw_point rnd R c D pts (k + 2) =
      Some (Inr (candidate rnd R c (k + 2 + 2 * j), k + 2 + 2 * j + 2))"
    by (rule Suc.IH)
  then show ?case
    using rej by (subst draw_point_accepted [OF assms]) (simp add: add.assoc)
qed

lemma draw_point_returns:
  assumes "pts \<noteq> []" "accepted D pts (candidate rnd R c (k + 2 * j))"
  shows "\<exists>j'\<le>j. (\<forall>i<j'. \<not> accepted D pts (candidate rnd R c (k + 2 * i))) \<and>
    accepted D pts (candidate rnd R c (k + 2 * j')) \<and>
    draw_point rnd R c D pts k = Some (Inr (candidate rnd R c (k + 2 * j'), k + 2 * j' + 2))"
proof -
  let ?P = "\<lambda>j. accepted D pts (candidate rnd R c (k + 2 * j))"
  let ?j = "LEAST j. ?P j"
  have a: "?P ?j" using assms(2) by (rule LeastI)
  have b: "\<forall>i<?j. \<not> ?P i" using not_less_Least by blast
  have c: "?j \<le> j" using assms(2) by (rule Least_le)
  from draw_point_first [OF assms(1) b a] a b c show ?thesis by blast
qed

lemma draw_point_Some_first:
  assumes "draw_point rnd R c D pts k = Some res" "pts \<noteq> []"
  shows "\<exists>j. (\<forall>i<j. \<not> accepted D pts (candidate rnd R c (k + 2 * i))) \<and>
    accepted D pts (candidate rnd R c (k + 2 * j)) \<and>
    res = Inr (candidate rnd R c (k + 2 * j), k + 2 * j + 2)"
proof -
  from draw_point_sound [OF assms(1)] assms(2) obtain j where
    "accepted D pts (candidate rnd R c (k + 2 * j))"
    unfolding accepted_def by blast
  from draw_point_returns [OF assms(2) this] assms(1) show ?thesis by auto
qed

lemma place_points_of_placed_after:
  "pts \<noteq> [] \<Longrightarrow> placed_after rnd R c D js pts k = Some out \<Longrightarrow>
   place_points rnd R c D (length js) pts k = Some (Inr out)"
proof (induction js arbitrary: pts k)
  case Nil
  then show ?case by simp
next
  case (Cons j js)
  let ?p = "candidate rnd R c (k + 2 * j)"
  from Cons.prems(2) have
    rej: "\<forall>i<j. \<not> accepted D pts (candidate rnd R c (k + 2 * i))" and
    acc: "accepted D pts ?p" and
    rest: "placed_after rnd R c D js (pts @ [?p]) (k + 2 * j + 2) = Some out"
    by (simp_all split: if_splits)
  have "draw_point rnd R c D pts k = Some (Inr (?p, k + 2 * j + 2))"
    using Cons.prems(1) rej acc by (rule draw_point_first)
  moreover have "place_points rnd R c D (length js) (pts @ [?p]) (k + 2 * j + 2) = Some (Inr out)"
    using rest by (intro Cons.IH) simp_all
  ultimately show ?case by simp
qed

lemma placed_after_of_place_points:
  "pts \<noteq> [] \<Longrightarrow> place_points rnd R c D m pts k = Some res \<Longrightarrow>
   \<exists>js out. length js = m \<and> res = Inr out \<and> placed_after rnd R c D js pts k = Some out"
proof (induction m arbitrary: pts k)
  case 0
  then show ?case by auto
next
  case (Suc m)
  from Suc.prems(2) obtain r1 where d: "draw_point rnd R c D pts k = Some r1"
    by (auto split: option.splits)
  from draw_point_Some_first [OF d Suc.prems(1)] obtain j where
    rej: "\<forall>i<j. \<not> accepted D pts (candidate rnd R c (k + 2 * i))" and
    acc: "accepted D pts (candidate rnd R c (k + 2 * j))" and
    r1: "r1 = Inr (candidate rnd R c (k + 2 * j), k + 2 * j + 2)"
    by blast
  let ?p = "candidate rnd R c (k + 2 * j)"
  from Suc.prems(2) d r1 have
    "place_points rnd R c D m (pts @ [?p]) (k + 2 * j + 2) = Some res" by simp
  from Suc.IH [OF _ this] obtain js out where
    js: "length js = m" "res = Inr out" "placed_after rnd R c D js (pts @ [?p]) (k + 2 * j + 2) = Some out"
    by auto
  have "length (j # js) = Suc m \<and> res = Inr out \<and> placed_after rnd R c D (j # js) pts k = Some out"
    using js rej acc by simp
  then show ?case by blast
qed

lemma euclidean_nonneg: "0 \<le> euclidean p q"
  by (simp add: euclidean_def)

lemma place_points_total_nonpos:
  "D \<le> 0 \<Longrightarrow> pts \<noteq> [] \<Longrightarrow> \<exists>out. place_points rnd R c D m pts k = Some (Inr out)"
proof (induction m arbitrary: pts k)
  case 0
  then show ?case by simp
next
  case (Suc m)
  have "accepted D pts (candidate rnd R c k)"
    unfolding accepted_def using Suc.prems(1) euclidean_nonneg order_trans by blast
  then have "draw_point rnd R c D pts k = Some (Inr (candidate rnd R c k, k + 2))"
    by (subst draw_point_accepted [OF Suc.prems(2)]) simp
  moreover have "\<exists>out. place_points rnd R c D m (pts @ [candidate rnd R c k]) (k + 2) = Some (Inr out)"
    using Suc.prems(1) by (intro Suc.IH) simp_all
  ultimately show ?case by simp
qed

subsection \<open>spaced_circle_points on the example draws\<close>

lemma euclidean_on_axis: "euclidean (a, 0) (b, 0) = \<bar>a - b\<bar>"
  by (simp add: euclidean_def)

lemma example_candidates:
  "candidate example_draws 50 (0, 0) 0 = (1 / 2, 0)"
  "candidate example_draws 50 (0, 0) 2 = (1, 0)"
  "candidate example_draws 50 (0, 0) 4 = (5, 0)"
  by (simp_all add: candidate_def example_draws_def)

lemma example_draws_range: "0 \<le> example_draws k \<and> example_draws k \<le> 1"
  by (simp add: example_draws_def)

lemma example_two_points:
  "spaced_circle_points example_draws 2 50 (0, 0) 1 = Some (Inr [(0, 0), (1 / 2, 0)])"
  by (simp add: spaced_circle_points_def draw_point_step example_candidates)

lemma example_three_points:
  "spaced_circle_points example_draws 3 50 (0, 0) 1 = Some (Inr [(0, 0), (1 / 2, 0), (5, 0)])"
proof -
  have n: "nat (3 - 1) = Suc (Suc 0)" by simp
  have a: "draw_point example_draws 50 (0, 0) 1 [(0, 0)] 0 = Some (Inr ((1 / 2, 0), 2))"
    by (simp add: draw_point_step example_candidates)
  have c: "draw_point example_draws 50 (0, 0) 1 [(0, 0), (1 / 2, 0)] 4 = Some (Inr ((5, 0), 6))"
    by (subst draw_point_step) (simp_all add: example_candidates euclidean_on_axis)
  have b: "draw_point example_draws 50 (0, 0) 1 [(0, 0), (1 / 2, 0)] 2 = Some (Inr ((5, 0), 6))"
    using c by (subst draw_point_step) (simp_all add: example_candidates euclidean_on_axis)
  show ?thesis
    unfolding spaced_circle_points_def n by (simp add: a b)
qed

lemma example_schedule:
  "placed_after example_draws 50 (0, 0) 1 [0, 1] [(0, 0)] 0 = Some [(0, 0), (1 / 2, 0), (5, 0)]"
proof -
  have c2: "candidate example_draws 50 (0, 0) (Suc (Suc 0)) = (1, 0)"
    by (simp add: candidate_def example_draws_def)
  have c4: "candidate example_draws 50 (0, 0) (Suc (Suc (Suc (Suc 0)))) = (5, 0)"
    by (simp add: candidate_def example_draws_def)
  show ?thesis
    by (simp add: accepted_def example_candidates c2 c4 euclidean_on_axis)
qed

subsection \<open>spaced_circle_points: the claims\<close>

text \<open>
  Claim C5, as the code has it. Let \<open>N \<ge> 1\<close>. The sampler returns exactly when every
  pass of the outer loop meets an acceptable candidate after finitely many rejected ones,
  and what it returns is then the list those candidates make with the centre; this is
  always so when \<open>N \<le> 2\<close> or \<open>D \<le> 0\<close>. Whenever it returns, it returns \<open>N\<close> points, the
  first of which is the centre, and every point from the third on is at distance at least
  \<open>D\<close> from every point placed before it. The second point is accepted without the check
  (\<open>len(points) == 1\<close>), so nothing is promised about its distance to the centre.
\<close>

theorem spaced_circle_points_spacing:
  assumes "1 \<le> N"
  shows "(\<forall>res. spaced_circle_points rnd N R c D = Some res \<longrightarrow>
            (\<exists>pts. res = Inr pts \<and> length pts = nat N \<and> pts ! 0 = c \<and>
               (\<forall>i j. i < j \<and> j < length pts \<and> 2 \<le> j \<longrightarrow>
                  D \<le> euclidean (pts ! j) (pts ! i)))) \<and>
         (\<forall>pts. spaced_circle_points rnd N R c D = Some (Inr pts) \<longleftrightarrow>
            (\<exists>js. length js = nat (N - 1) \<and> placed_after rnd R c D js [c] 0 = Some pts)) \<and>
         (N \<le> 2 \<or> D \<le> 0 \<longrightarrow> (\<exists>pts. spaced_circle_points rnd N R c D = Some (Inr pts)))"
proof (intro conjI allI impI iffI)
  fix res
  assume "spaced_circle_points rnd N R c D = Some res"
  then have "place_points rnd R c D (nat (N - 1)) [c] 0 = Some res"
    by (simp add: spaced_circle_points_def)
  from place_points_sound [OF this] obtain out where
    out: "res = Inr out" "length out = length [c] + nat (N - 1)" "take (length [c]) out = [c]" and
    far: "\<forall>i j. i < j \<and> length [c] \<le> j \<and> j < length out \<and> 2 \<le> j \<longrightarrow>
       D \<le> euclidean (out ! j) (out ! i)"
    by auto
  have len: "length out = nat N" using out(2) assms by simp
  have "out ! 0 = take (length [c]) out ! 0" by simp
  then have first: "out ! 0 = c" by (simp only: out(3) nth_Cons_0)
  have "\<forall>i j. i < j \<and> j < length out \<and> 2 \<le> j \<longrightarrow> D \<le> euclidean (out ! j) (out ! i)"
    using far by simp
  with out(1) len first
  show "\<exists>pts. res = Inr pts \<and> length pts = nat N \<and> pts ! 0 = c \<and>
               (\<forall>i j. i < j \<and> j < length pts \<and> 2 \<le> j \<longrightarrow>
                  D \<le> euclidean (pts ! j) (pts ! i))"
    by blast
next
  fix pts
  assume "spaced_circle_points rnd N R c D = Some (Inr pts)"
  then have "place_points rnd R c D (nat (N - 1)) [c] 0 = Some (Inr pts)"
    by (simp add: spaced_circle_points_def)
  from placed_after_of_place_points [OF _ this]
  show "\<exists>js. length js = nat (N - 1) \<and> placed_after rnd R c D js [c] 0 = Some pts"
    by auto
next
  fix pts
  assume "\<exists>js. length js = nat (N - 1) \<and> placed_after rnd R c D js [c] 0 = Some pts"
  then obtain js where js: "length js = nat (N - 1)" "placed_after rnd R c D js [c] 0 = Some pts"
    by blast
  from place_points_of_placed_after [OF _ js(2)] js(1)
  show "spaced_circle_points rnd N R c D = Some (Inr pts)"
    by (simp add: spaced_circle_points_def)
next
  assume "N \<le> 2 \<or> D \<le> 0"
  then show "\<exists>pts. spaced_circle_points rnd N R c D = Some (Inr pts)"
  proof
    assume "N \<le> 2"
    with assms have "N = 1 \<or> N = 2" by arith
    then show ?thesis
    proof
      assume "N = 1"
      then show ?thesis by (simp add: spaced_circle_points_def)
    next
      assume "N = 2"
      then have "nat (N - 1) = Suc 0" by simp
      then show ?thesis
        unfolding spaced_circle_points_def by (simp only: place_points_one) blast
    qed
  next
    assume "D \<le> 0"
    then show ?thesis
      unfolding spaced_circle_points_def by (intro place_points_total_nonpos) simp_all
  qed
qed

theorem spaced_circle_points_spacing_witness:
  "(1::int) \<le> 3 \<and>
   length [0, 1 :: nat] = nat (3 - 1) \<and>
   placed_after example_draws 50 (0, 0) 1 [0, 1] [(0, 0)] 0 = Some [(0, 0), (1 / 2, 0), (5, 0)] \<and>
   spaced_circle_points example_draws 3 50 (0, 0) 1 = Some (Inr [(0, 0), (1 / 2, 0), (5, 0)]) \<and>
   length [(0, 0), (1 / 2, 0), (5, 0) :: point] = nat 3 \<and>
   1 \<le> euclidean ([(0, 0), (1 / 2, 0), (5, 0)] ! 2) ([(0, 0), (1 / 2, 0), (5, 0)] ! 0) \<and>
   1 \<le> euclidean ([(0, 0), (1 / 2, 0), (5, 0)] ! 2) ([(0, 0), (1 / 2, 0), (5, 0)] ! 1)"
proof -
  have h: "(1::int) \<le> 3" by simp
  note inst = spaced_circle_points_spacing [OF h, of example_draws 50 "(0, 0)" 1]
  have sched: "\<exists>js. length js = nat (3 - 1) \<and>
      placed_after example_draws 50 (0, 0) 1 js [(0, 0)] 0 = Some [(0, 0), (1 / 2, 0), (5, 0)]"
    by (rule exI [of _ "[0, 1]"]) (simp only: example_schedule, simp)
  have ret: "spaced_circle_points example_draws 3 50 (0, 0) 1 =
      Some (Inr [(0, 0), (1 / 2, 0), (5, 0)])"
    using inst [THEN conjunct2, THEN conjunct1, rule_format, THEN iffD2, OF sched] .
  from inst [THEN conjunct1, rule_format, OF ret]
  have far: "\<forall>i j. i < j \<and> j < length [(0, 0), (1 / 2, 0), (5, 0) :: point] \<and> 2 \<le> j \<longrightarrow>
      1 \<le> euclidean ([(0, 0), (1 / 2, 0), (5, 0)] ! j) ([(0, 0), (1 / 2, 0), (5, 0)] ! i)"
    by simp
  have "1 \<le> euclidean ([(0, 0), (1 / 2, 0), (5, 0)] ! 2) ([(0, 0), (1 / 2, 0), (5, 0)] ! 0)"
    by (rule far [rule_format]) simp
  moreover have "1 \<le> euclidean ([(0, 0), (1 / 2, 0), (5, 0)] ! 2) ([(0, 0), (1 / 2, 0), (5, 0)] ! 1)"
    by (rule far [rule_format]) simp
  ultimately show ?thesis using ret example_schedule by (simp del: placed_after.simps)
qed

text \<open>
  With the defaults of the program (radius 50, separation 1) and two points, a second point
  drawn at radius \<open>1/2\<close> is returned at distance \<open>1/2\<close> from the centre.
\<close>

theorem spaced_circle_points_second_point_counterexample:
  "spaced_circle_points example_draws 2 50 (0, 0) 1 = Some (Inr [(0, 0), (1 / 2, 0)]) \<and>
   [(0, 0), (1 / 2, 0) :: point] ! 0 \<noteq> [(0, 0), (1 / 2, 0)] ! 1 \<and>
   euclidean ([(0, 0), (1 / 2, 0)] ! 1) ([(0, 0), (1 / 2, 0)] ! 0) < 1"
  by (simp add: example_two_points euclidean_on_axis)

text \<open>
  Claim C6, as the code has it. The inner loop has no bound on the number of redraws and
  no failure exit. When at least three points are asked for and the separation \<open>D\<close> exceeds
  the radius \<open>R \<ge> 0\<close>, every candidate is within \<open>R\<close> of the centre and is rejected once
  two points are placed: whatever \<open>random()\<close> returns in \<open>[0, 1)\<close>, the sampler never
  returns and raises nothing.
\<close>

theorem spaced_circle_points_never_returns:
  assumes "3 \<le> N" and "0 \<le> R" and "R < D" and "\<forall>k. 0 \<le> rnd k \<and> rnd k < 1"
  shows "spaced_circle_points rnd N R c D = None"
proof (rule spaced_circle_points_diverges [OF assms(1,2,3)])
  fix k
  from assms(4) show "0 \<le> rnd k \<and> rnd k \<le> 1" by (simp add: less_imp_le)
qed

theorem spaced_circle_points_never_returns_witness:
  "(3::int) \<le> 4 \<and> (0::real) \<le> 2 \<and> (2::real) < 3 \<and>
   spaced_circle_points example_draws 4 2 (0, 0) 3 = None"
proof -
  have "spaced_circle_points example_draws 4 2 (0, 0) 3 = None"
    by (rule spaced_circle_points_never_returns) (simp_all add: example_draws_def)
  then show ?thesis by simp
qed

text \<open>Three points in a circle of radius 1 at separation 10: the sampler runs forever.\<close>

theorem spaced_circle_points_no_cap_counterexample:
  "spaced_circle_points example_draws 3 1 (0, 0) 10 = None"
  by (rule spaced_circle_points_diverges) (simp_all add: example_draws_range)

end
